theory Spec2Isabelle
  imports Main
begin

section \<open>JavaScript numbers as used by the differ\<close>

text \<open>
  The differ of \<^verbatim>\<open>src/js/simple_differ.js\<close> computes with character offsets and chunk
  lengths. They are integers, except for the length \<^verbatim>\<open>Infinity\<close> of the trailing copy
  chunk and what arithmetic makes of it (\<^verbatim>\<open>Infinity - Infinity\<close> is \<^verbatim>\<open>NaN\<close>). A number is
  therefore an integer, one of the two infinities, or NaN; integers are exact (the
  rounding of doubles beyond \<open>2 ^ 53\<close> is outside this model).
\<close>

datatype jsnum = Fin int | PInf | NInf | NaN

fun js_add :: "jsnum \<Rightarrow> jsnum \<Rightarrow> jsnum" where
  "js_add NaN y = NaN"
| "js_add x NaN = NaN"
| "js_add (Fin a) (Fin b) = Fin (a + b)"
| "js_add PInf NInf = NaN"
| "js_add NInf PInf = NaN"
| "js_add PInf y = PInf"
| "js_add NInf y = NInf"
| "js_add (Fin a) PInf = PInf"
| "js_add (Fin a) NInf = NInf"

fun js_neg :: "jsnum \<Rightarrow> jsnum" where
  "js_neg (Fin a) = Fin (- a)"
| "js_neg PInf = NInf"
| "js_neg NInf = PInf"
| "js_neg NaN = NaN"

definition js_sub :: "jsnum \<Rightarrow> jsnum \<Rightarrow> jsnum" where
  "js_sub x y = js_add x (js_neg y)"

text \<open>\<^verbatim>\<open>x > y\<close>: false as soon as one side is NaN.\<close>

fun js_gt :: "jsnum \<Rightarrow> jsnum \<Rightarrow> bool" where
  "js_gt (Fin a) (Fin b) = (b < a)"
| "js_gt PInf (Fin b) = True"
| "js_gt PInf NInf = True"
| "js_gt (Fin a) NInf = True"
| "js_gt x y = False"

text \<open>\<^verbatim>\<open>x == y\<close> on numbers: NaN equals nothing, itself included.\<close>

fun js_eq :: "jsnum \<Rightarrow> jsnum \<Rightarrow> bool" where
  "js_eq NaN y = False"
| "js_eq x NaN = False"
| "js_eq x y = (x = y)"

text \<open>
  \<^verbatim>\<open>text.substr(splitAt)\<close> and \<^verbatim>\<open>text.substr(0, splitAt)\<close>: a negative start counts from
  the end, NaN is 0, and every bound is clamped to the string.
\<close>

fun substr_from :: "string \<Rightarrow> jsnum \<Rightarrow> string" where
  "substr_from t (Fin n) =
     (if n < 0 then drop (nat (int (length t) + n)) t else drop (nat n) t)"
| "substr_from t PInf = []"
| "substr_from t NInf = t"
| "substr_from t NaN = t"

fun substr_to :: "string \<Rightarrow> jsnum \<Rightarrow> string" where
  "substr_to t (Fin n) = take (nat n) t"
| "substr_to t PInf = t"
| "substr_to t NInf = []"
| "substr_to t NaN = []"

text \<open>\<^verbatim>\<open>Array.prototype.splice\<close>, in its two uses: insert one element, remove a range.\<close>

definition splice_insert :: "nat \<Rightarrow> 'a \<Rightarrow> 'a list \<Rightarrow> 'a list" where
  "splice_insert i x xs = take i xs @ [x] @ drop i xs"

definition splice_remove :: "nat \<Rightarrow> nat \<Rightarrow> 'a list \<Rightarrow> 'a list" where
  "splice_remove i n xs = take i xs @ drop (i + n) xs"

section \<open>The differ\<close>

text \<open>
  A chunk is an object \<^verbatim>\<open>{type: 'copy', start, length}\<close> or
  \<^verbatim>\<open>{type: 'insert', text, length}\<close>; the differ owns the array \<^verbatim>\<open>chunks_\<close>.
\<close>

datatype chunk = CopyChunk jsnum jsnum | InsertChunk string jsnum

fun chunk_length :: "chunk \<Rightarrow> jsnum" where
  "chunk_length (CopyChunk s l) = l"
| "chunk_length (InsertChunk t l) = l"

record differ =
  chunks :: "chunk list"

datatype error = TypeError

text \<open>The constructor \<^verbatim>\<open>mobwrite.SimpleDiffer\<close>.\<close>

definition SimpleDiffer :: differ where
  "SimpleDiffer = \<lparr>chunks = [CopyChunk (Fin 0) PInf]\<rparr>"

text \<open>
  \<^verbatim>\<open>findChunk_\<close>: the loop ends when \<^verbatim>\<open>this.chunks_[i]\<close> is undefined, and the function
  then returns undefined (\<open>None\<close>). The list argument of the loop is what is left of the
  array from index \<open>i\<close> on.
\<close>

fun findChunk_loop :: "chunk list \<Rightarrow> nat \<Rightarrow> jsnum \<Rightarrow> jsnum \<Rightarrow> (nat \<times> jsnum) option" where
  "findChunk_loop [] i currentCharIndex targetCharIndex = None"
| "findChunk_loop (c # cs) i currentCharIndex targetCharIndex =
     (if js_gt (js_add currentCharIndex (chunk_length c)) targetCharIndex
      then Some (i, js_sub targetCharIndex currentCharIndex)
      else findChunk_loop cs (Suc i) (js_add currentCharIndex (chunk_length c))
             targetCharIndex)"

definition findChunk :: "differ \<Rightarrow> jsnum \<Rightarrow> (nat \<times> jsnum) option" where
  "findChunk d targetCharIndex = findChunk_loop (chunks d) 0 (Fin 0) targetCharIndex"

text \<open>
  \<^verbatim>\<open>splitChunk_\<close>: the chunk at \<open>chunkIndex\<close> keeps the first \<open>splitAt\<close> characters and
  a new chunk with the rest is spliced in after it. There is no test of \<open>splitAt\<close>
  against 0 or the chunk's length. Reading a property of a missing chunk throws.
\<close>

definition splitChunk :: "nat \<Rightarrow> jsnum \<Rightarrow> differ \<Rightarrow> error + differ" where
  "splitChunk chunkIndex splitAt d =
     (if length (chunks d) \<le> chunkIndex then Inl TypeError
      else (case chunks d ! chunkIndex of
          InsertChunk t l \<Rightarrow>
            Inr (d\<lparr>chunks :=
              splice_insert (chunkIndex + 1)
                (InsertChunk (substr_from t splitAt) (js_sub l splitAt))
                ((chunks d)[chunkIndex := InsertChunk (substr_to t splitAt) splitAt])\<rparr>)
        | CopyChunk s l \<Rightarrow>
            Inr (d\<lparr>chunks :=
              splice_insert (chunkIndex + 1)
                (CopyChunk (js_add s splitAt) (js_sub l splitAt))
                ((chunks d)[chunkIndex := CopyChunk s splitAt])\<rparr>)))"

text \<open>\<^verbatim>\<open>applyInsert(index, text)\<close>; \<^verbatim>\<open>x[0]\<close> throws when \<^verbatim>\<open>findChunk_\<close> found nothing.\<close>

definition applyInsert :: "int \<Rightarrow> string \<Rightarrow> differ \<Rightarrow> error + differ" where
  "applyInsert index text d =
     (case findChunk d (Fin index) of
        None \<Rightarrow> Inl TypeError
      | Some (chunkIndex, splitOffset) \<Rightarrow>
          (case splitChunk chunkIndex splitOffset d of
             Inl e \<Rightarrow> Inl e
           | Inr d1 \<Rightarrow>
               Inr (d1\<lparr>chunks :=
                 splice_insert (chunkIndex + 1)
                   (InsertChunk text (Fin (int (length text)))) (chunks d1)\<rparr>)))"

text \<open>
  \<^verbatim>\<open>applyDelete(startIndex, endIndex)\<close>. The count given to \<^verbatim>\<open>splice\<close> is
  \<^verbatim>\<open>deleteEndIndex - deleteStartIndex\<close>; a negative count removes nothing, as the
  subtraction on \<open>nat\<close> does.
\<close>

definition applyDelete :: "int \<Rightarrow> int \<Rightarrow> differ \<Rightarrow> error + differ" where
  "applyDelete startIndex endIndex d =
     (if startIndex = endIndex then Inr d
      else (case findChunk d (Fin startIndex) of
          None \<Rightarrow> Inl TypeError
        | Some (startChunkIndex, startOffset) \<Rightarrow>
            (case splitChunk startChunkIndex startOffset d of
               Inl e \<Rightarrow> Inl e
             | Inr d1 \<Rightarrow>
                 (case findChunk d1 (Fin endIndex) of
                    None \<Rightarrow> Inl TypeError
                  | Some (endChunkIndex, endOffset) \<Rightarrow>
                      (case splitChunk endChunkIndex endOffset d1 of
                         Inl e \<Rightarrow> Inl e
                       | Inr d2 \<Rightarrow>
                           Inr (d2\<lparr>chunks :=
                             splice_remove (startChunkIndex + 1)
                               ((endChunkIndex + 1) - (startChunkIndex + 1))
                               (chunks d2)\<rparr>))))))"

text \<open>
  \<^verbatim>\<open>mergeInserts_\<close>. \<open>prevInsert\<close> is a reference to a chunk object of the array; the
  model keeps its index, which no splice moves (every splice is at \<open>i\<close>, behind it).
  In the branch of the empty text the source splices without \<^verbatim>\<open>i--\<close>, so the loop's
  \<^verbatim>\<open>i++\<close> steps over the chunk that moved to index \<open>i\<close>; the merging branch does
  \<^verbatim>\<open>i--\<close> and stays at \<open>i\<close>. \<open>prevInsert\<close> is only ever set to an insert chunk, and no
  chunk changes its type, so \<open>append_text\<close> is only used on insert chunks; its equation
  for a copy chunk is there to make the function total.
\<close>

fun append_text :: "chunk \<Rightarrow> string \<Rightarrow> jsnum \<Rightarrow> chunk" where
  "append_text (InsertChunk pt pl) t l = InsertChunk (pt @ t) (js_add pl l)"
| "append_text (CopyChunk s pl) t l = CopyChunk s (js_add pl l)"

function mergeInserts_loop :: "chunk list \<Rightarrow> nat \<Rightarrow> nat option \<Rightarrow> chunk list" where
  "mergeInserts_loop cs i prevInsert =
     (if i < length cs then
        (case cs ! i of
           InsertChunk t l \<Rightarrow>
             (if t = [] then mergeInserts_loop (splice_remove i 1 cs) (i + 1) prevInsert
              else (case prevInsert of
                  Some p \<Rightarrow>
                    mergeInserts_loop
                      (splice_remove i 1 (cs[p := append_text (cs ! p) t l])) i prevInsert
                | None \<Rightarrow> mergeInserts_loop cs (i + 1) (Some i)))
         | CopyChunk s l \<Rightarrow> mergeInserts_loop cs (i + 1) None)
      else cs)"
  by pat_completeness auto
termination
  by (relation "measure (\<lambda>(cs, i, p). length cs - i)") (auto simp: splice_remove_def)

declare mergeInserts_loop.simps [simp del]

definition mergeInserts :: "differ \<Rightarrow> differ" where
  "mergeInserts d = d\<lparr>chunks := mergeInserts_loop (chunks d) 0 None\<rparr>"

text \<open>An action of the simple diff: \<^verbatim>\<open>{type: 'delete', start, end}\<close> or
  \<^verbatim>\<open>{type: 'insert', start, text}\<close>.\<close>

datatype action = DeleteAction jsnum jsnum | InsertAction jsnum string

text \<open>
  The first loop of \<^verbatim>\<open>getSimpleDiff\<close> walks the chunks from the last to the first: the
  list argument is the array reversed, \<open>simpleDiff @ [a]\<close> is \<^verbatim>\<open>simpleDiff.push(a)\<close>.
\<close>

fun diff_loop :: "chunk list \<Rightarrow> jsnum \<Rightarrow> action list \<Rightarrow> action list" where
  "diff_loop [] lastCopyCharIndex simpleDiff = simpleDiff"
| "diff_loop (CopyChunk s l # cs) lastCopyCharIndex simpleDiff =
     (let deletedChars = js_sub lastCopyCharIndex (js_add s l)
      in diff_loop cs s
           (if js_gt deletedChars (Fin 0)
            then simpleDiff @ [DeleteAction (js_add s l) (js_add (js_add s l) deletedChars)]
            else simpleDiff))"
| "diff_loop (InsertChunk t l # cs) lastCopyCharIndex simpleDiff =
     diff_loop cs lastCopyCharIndex (simpleDiff @ [InsertAction lastCopyCharIndex t])"

text \<open>
  The second loop merges adjacent deletes, from the last action to the first. The
  second argument is \<open>i + 1\<close> for the loop variable \<open>i\<close>; \<open>prevDelete\<close> is a reference
  into the array, kept as an index, and the splice at \<open>i\<close> moves it down by one.
  \<open>prevDelete\<close> is only ever set to a delete action; were it an insert action, its
  \<^verbatim>\<open>end\<close> would be undefined and \<^verbatim>\<open>==\<close> false.
\<close>

fun mergeDeletes_loop :: "action list \<Rightarrow> nat \<Rightarrow> nat option \<Rightarrow> action list" where
  "mergeDeletes_loop simpleDiff 0 prevDelete = simpleDiff"
| "mergeDeletes_loop simpleDiff (Suc i) prevDelete =
     (case simpleDiff ! i of
        DeleteAction st en \<Rightarrow>
          (case prevDelete of
             Some p \<Rightarrow>
               (case simpleDiff ! p of
                  DeleteAction pst pen \<Rightarrow>
                    (if js_eq pen st
                     then mergeDeletes_loop
                            (splice_remove i 1 (simpleDiff[p := DeleteAction pst en]))
                            i (Some (p - 1))
                     else mergeDeletes_loop simpleDiff i (Some i))
                | InsertAction pst pt \<Rightarrow> mergeDeletes_loop simpleDiff i (Some i))
           | None \<Rightarrow> mergeDeletes_loop simpleDiff i (Some i))
      | InsertAction st t \<Rightarrow> mergeDeletes_loop simpleDiff i None)"

text \<open>\<^verbatim>\<open>getSimpleDiff\<close> returns the actions and leaves the merged chunks in the differ.\<close>

definition getSimpleDiff :: "differ \<Rightarrow> differ \<times> action list" where
  "getSimpleDiff d =
     (let d1 = mergeInserts d;
          simpleDiff = diff_loop (rev (chunks d1)) PInf []
      in (d1, mergeDeletes_loop simpleDiff (length simpleDiff) None))"

section \<open>Edit sequences, and strings to run them on\<close>

text \<open>
  The caller (\<^verbatim>\<open>patch_apply_\<close> in \<^verbatim>\<open>mobwrite_codemirror_uncompressed.js\<close>) records every
  edit it makes to its text with \<^verbatim>\<open>applyInsert\<close> or \<^verbatim>\<open>applyDelete\<close>. A sequence of such
  calls is a list of edits; the first call that throws ends the run.
\<close>

datatype edit = EditInsert int string | EditDelete int int

fun apply_edit :: "edit \<Rightarrow> differ \<Rightarrow> error + differ" where
  "apply_edit (EditInsert index text) d = applyInsert index text d"
| "apply_edit (EditDelete startIndex endIndex) d = applyDelete startIndex endIndex d"

fun record_edits :: "edit list \<Rightarrow> differ \<Rightarrow> error + differ" where
  "record_edits [] d = Inr d"
| "record_edits (e # es) d =
     (case apply_edit e d of Inl err \<Rightarrow> Inl err | Inr d1 \<Rightarrow> record_edits es d1)"

text \<open>
  The same edits made to a string, as \<^verbatim>\<open>patch_apply_\<close> makes them:
  \<^verbatim>\<open>text.substring(0, i) + s + text.substring(i)\<close> and
  \<^verbatim>\<open>text.substring(0, del_start) + text.substring(del_end)\<close>.
\<close>

fun edit_text :: "edit \<Rightarrow> string \<Rightarrow> string" where
  "edit_text (EditInsert index text) s = take (nat index) s @ text @ drop (nat index) s"
| "edit_text (EditDelete startIndex endIndex) s =
     take (nat startIndex) s @ drop (nat endIndex) s"

fun edit_all :: "edit list \<Rightarrow> string \<Rightarrow> string" where
  "edit_all [] s = s"
| "edit_all (e # es) s = edit_all es (edit_text e s)"

text \<open>
  A sequence of edits is well formed for a virtual document of \<open>n\<close> characters when
  every offset is valid against the length of the document at the time of its call.
\<close>

fun well_formed :: "nat \<Rightarrow> edit list \<Rightarrow> bool" where
  "well_formed n [] = True"
| "well_formed n (EditInsert index text # es) =
     (0 \<le> index \<and> index \<le> int n \<and> well_formed (n + length text) es)"
| "well_formed n (EditDelete startIndex endIndex # es) =
     (0 \<le> startIndex \<and> startIndex \<le> endIndex \<and> endIndex \<le> int n
      \<and> well_formed (n - nat (endIndex - startIndex)) es)"

text \<open>
  Replaying a simple diff, in the words of the specification: the actions are applied
  in the order returned; a delete removes \<open>[start, end)\<close>, an insert puts its text at
  its start offset. An offset is read as a position of the string the way
  \<^verbatim>\<open>substring\<close> reads it.
\<close>

fun position :: "jsnum \<Rightarrow> string \<Rightarrow> nat" where
  "position (Fin n) s = min (nat n) (length s)"
| "position PInf s = length s"
| "position NInf s = 0"
| "position NaN s = 0"

fun replay_action :: "action \<Rightarrow> string \<Rightarrow> string" where
  "replay_action (DeleteAction st en) s = take (position st s) s @ drop (position en s) s"
| "replay_action (InsertAction st t) s = take (position st s) s @ t @ drop (position st s) s"

fun replay :: "action list \<Rightarrow> string \<Rightarrow> string" where
  "replay [] s = s"
| "replay (a # as) s = replay as (replay_action a s)"

text \<open>The simple diff of a sequence of edits recorded on a fresh differ.\<close>

definition simple_diff_of :: "edit list \<Rightarrow> error + action list" where
  "simple_diff_of es =
     (case record_edits es SimpleDiffer of
        Inl err \<Rightarrow> Inl err
      | Inr d \<Rightarrow> Inr (snd (getSimpleDiff d)))"

section \<open>Properties of a simple diff\<close>

text \<open>
  The span of an action in the original document: \<open>[start, end)\<close> for a delete, the
  zero-width point \<open>start\<close> for an insert.
\<close>

fun action_start :: "action \<Rightarrow> jsnum" where
  "action_start (DeleteAction st en) = st"
| "action_start (InsertAction st t) = st"

fun action_end :: "action \<Rightarrow> jsnum" where
  "action_end (DeleteAction st en) = en"
| "action_end (InsertAction st t) = st"

fun is_delete :: "action \<Rightarrow> bool" where
  "is_delete (DeleteAction st en) = True"
| "is_delete (InsertAction st t) = False"

definition js_le :: "jsnum \<Rightarrow> jsnum \<Rightarrow> bool" where
  "js_le x y = (js_gt y x \<or> js_eq x y)"

text \<open>Two spans do not overlap when one ends where the other starts, or before.\<close>

definition disjoint_spans :: "action \<Rightarrow> action \<Rightarrow> bool" where
  "disjoint_spans a b =
     (js_le (action_end a) (action_start b) \<or> js_le (action_end b) (action_start a))"

text \<open>Two deletes are adjacent when the first ends where the second starts.\<close>

definition adjacent_deletes :: "action \<Rightarrow> action \<Rightarrow> bool" where
  "adjacent_deletes a b =
     (is_delete a \<and> is_delete b \<and> js_eq (action_end a) (action_start b))"

text \<open>Every pair of actions, at two different places of the list, has disjoint spans.\<close>

definition no_overlap :: "action list \<Rightarrow> bool" where
  "no_overlap acts = sorted_wrt disjoint_spans acts"

text \<open>No delete of the list ends where another delete of the list starts.\<close>

definition deletes_apart :: "action list \<Rightarrow> bool" where
  "deletes_apart acts = (\<forall>a \<in> set acts. \<forall>b \<in> set acts. \<not> adjacent_deletes a b)"

text \<open>No two actions that follow one another in the list are adjacent deletes.\<close>

definition neighbours_apart :: "action list \<Rightarrow> bool" where
  "neighbours_apart acts =
     successively (\<lambda>a b. \<not> adjacent_deletes b a \<and> \<not> adjacent_deletes a b) acts"

text \<open>
  Two deletes of the list of which one ends where the other starts have an action
  between them that is not a delete.
\<close>

definition insert_between :: "action list \<Rightarrow> bool" where
  "insert_between acts =
     (\<forall>j \<in> {..<length acts}. \<forall>i \<in> {..<j}.
        adjacent_deletes (acts ! i) (acts ! j) \<or> adjacent_deletes (acts ! j) (acts ! i)
        \<longrightarrow> (\<exists>k \<in> {i<..<j}. \<not> is_delete (acts ! k)))"

text \<open>An action with finite offsets; a delete is not empty.\<close>

fun finite_action :: "action \<Rightarrow> bool" where
  "finite_action (DeleteAction (Fin s) (Fin e)) = (s < e)"
| "finite_action (InsertAction (Fin s) t) = True"
| "finite_action a = False"

text \<open>The zero-length chunk that a split at offset 0 puts in front of a chunk.\<close>

fun zero_length :: "chunk \<Rightarrow> chunk" where
  "zero_length (CopyChunk s l) = CopyChunk s (Fin 0)"
| "zero_length (InsertChunk t l) = InsertChunk [] (Fin 0)"

section \<open>Invariant of the chunk sequence\<close>

text \<open>
  The chunks of a differ that has recorded well-formed edits: the copy chunks have
  finite starts, lie in increasing order without overlap from \<open>lo\<close> on, and have finite
  lengths, except the last chunk of the sequence, which is a copy chunk of length
  \<^verbatim>\<open>Infinity\<close>; every insert chunk has a finite length.
\<close>

fun wfc :: "int \<Rightarrow> chunk list \<Rightarrow> bool" where
  "wfc lo [] = False"
| "wfc lo (InsertChunk t (Fin n) # cs) = wfc lo cs"
| "wfc lo (CopyChunk (Fin a) (Fin b) # cs) = (lo \<le> a \<and> 0 \<le> b \<and> wfc (a + b) cs)"
| "wfc lo (CopyChunk (Fin a) PInf # cs) = (lo \<le> a \<and> cs = [])"
| "wfc lo (c # cs) = False"

text \<open>The two chunks that \<^verbatim>\<open>splitChunk_\<close> leaves in the place of one.\<close>

fun halves :: "chunk \<Rightarrow> jsnum \<Rightarrow> chunk list" where
  "halves (InsertChunk t l) splitAt =
     [InsertChunk (substr_to t splitAt) splitAt,
      InsertChunk (substr_from t splitAt) (js_sub l splitAt)]"
| "halves (CopyChunk s l) splitAt =
     [CopyChunk s splitAt, CopyChunk (js_add s splitAt) (js_sub l splitAt)]"

text \<open>
  In \<^verbatim>\<open>mergeInserts_\<close>, \<open>prevInsert\<close> is null or refers to an insert chunk in front of
  index \<open>i\<close>.
\<close>

definition prev_ok :: "chunk list \<Rightarrow> nat \<Rightarrow> nat option \<Rightarrow> bool" where
  "prev_ok cs i prevInsert =
     (case prevInsert of None \<Rightarrow> True
      | Some p \<Rightarrow>
          p < i \<and> p < length cs
          \<and> (case cs ! p of InsertChunk t l \<Rightarrow> True | CopyChunk s l \<Rightarrow> False))"

section \<open>Auxiliary functions for the two loops of getSimpleDiff\<close>

text \<open>The value of \<open>lastCopyCharIndex\<close> when the first loop has walked a list of chunks.\<close>

fun last_copy :: "chunk list \<Rightarrow> jsnum \<Rightarrow> jsnum" where
  "last_copy [] lastCopyCharIndex = lastCopyCharIndex"
| "last_copy (CopyChunk s l # cs) lastCopyCharIndex = last_copy cs s"
| "last_copy (InsertChunk t l # cs) lastCopyCharIndex = last_copy cs lastCopyCharIndex"

text \<open>
  Actions in increasing order from \<open>lb\<close> on (the diff of the first loop read backwards),
  and in decreasing order from \<open>ub\<close> down: finite offsets, deletes not empty, every
  action ends where the next one of higher offsets starts, or before.
\<close>

fun asc :: "int \<Rightarrow> action list \<Rightarrow> bool" where
  "asc lb [] = True"
| "asc lb (DeleteAction (Fin s) (Fin e) # acts) = (lb \<le> s \<and> s < e \<and> asc e acts)"
| "asc lb (InsertAction (Fin s) t # acts) = (lb \<le> s \<and> asc s acts)"
| "asc lb (a # acts) = False"

fun dsc :: "int \<Rightarrow> action list \<Rightarrow> bool" where
  "dsc ub [] = True"
| "dsc ub (DeleteAction (Fin s) (Fin e) # acts) = (s < e \<and> e \<le> ub \<and> dsc s acts)"
| "dsc ub (InsertAction (Fin s) t # acts) = (s \<le> ub \<and> dsc s acts)"
| "dsc ub (a # acts) = False"

text \<open>
  The second loop as a recursion over lists: the actions still to visit, last first;
  the actions visited, as they stand in the array behind index \<open>i\<close>; and whether
  \<open>prevDelete\<close> is set, in which case it is the first of the visited actions.
\<close>

fun push_delete :: "jsnum \<Rightarrow> jsnum \<Rightarrow> action list \<Rightarrow> bool \<Rightarrow> action list" where
  "push_delete st en (DeleteAction pst pen # acc) True =
     (if js_eq pen st then DeleteAction pst en # acc
      else DeleteAction st en # DeleteAction pst pen # acc)"
| "push_delete st en acc b = DeleteAction st en # acc"

fun mergeDeletes_list :: "action list \<Rightarrow> action list \<Rightarrow> bool \<Rightarrow> action list" where
  "mergeDeletes_list [] acc b = acc"
| "mergeDeletes_list (InsertAction st t # r) acc b = mergeDeletes_list r (InsertAction st t # acc) False"
| "mergeDeletes_list (DeleteAction st en # r) acc b = mergeDeletes_list r (push_delete st en acc b) True"

text \<open>What holds of the visited actions during the second loop.\<close>

definition merged_upto :: "int \<Rightarrow> action list \<Rightarrow> bool \<Rightarrow> bool" where
  "merged_upto ub acc b =
     (dsc ub acc \<and> successively (\<lambda>x y. \<not> adjacent_deletes y x) acc
      \<and> (b \<longleftrightarrow> (case acc of [] \<Rightarrow> False | a # as \<Rightarrow> is_delete a)))"

section \<open>The chunk sequence after well-formed edits\<close>

lemma wfc_mono: "wfc lo cs \<Longrightarrow> lo' \<le> lo \<Longrightarrow> wfc lo' cs"
  by (induction lo cs rule: wfc.induct) auto

lemma findChunk_loop_wfc:
  "wfc lo cs \<Longrightarrow> cur \<le> t \<Longrightarrow>
   \<exists>k r. findChunk_loop cs i (Fin cur) (Fin t) = Some (i + k, Fin r) \<and> k < length cs
     \<and> 0 \<le> r \<and> js_gt (chunk_length (cs ! k)) (Fin r)"
proof (induction lo cs arbitrary: i cur rule: wfc.induct)
  case (2 lo t' n cs)
  show ?case
  proof (cases "t < cur + n")
    case True
    with 2 show ?thesis by (auto simp: js_sub_def intro!: exI[of _ 0])
  next
    case False
    with 2 have "wfc lo cs" "cur + n \<le> t" by auto
    from 2(1)[OF this, of "Suc i"] obtain k r where
      "findChunk_loop cs (Suc i) (Fin (cur + n)) (Fin t) = Some (Suc i + k, Fin r)"
      "k < length cs" "0 \<le> r" "js_gt (chunk_length (cs ! k)) (Fin r)" by blast
    with False show ?thesis by (auto intro!: exI[of _ "Suc k"])
  qed
next
  case (3 lo a b cs)
  show ?case
  proof (cases "t < cur + b")
    case True
    with 3 show ?thesis by (auto simp: js_sub_def intro!: exI[of _ 0])
  next
    case False
    with 3 have "wfc (a + b) cs" "cur + b \<le> t" by auto
    from 3(1)[OF this, of "Suc i"] obtain k r where
      "findChunk_loop cs (Suc i) (Fin (cur + b)) (Fin t) = Some (Suc i + k, Fin r)"
      "k < length cs" "0 \<le> r" "js_gt (chunk_length (cs ! k)) (Fin r)" by blast
    with False show ?thesis by (auto intro!: exI[of _ "Suc k"])
  qed
next
  case (4 lo a cs)
  then show ?case by (auto simp: js_sub_def intro!: exI[of _ 0])
qed auto

lemma wfc_halves:
  "wfc lo cs \<Longrightarrow> k < length cs \<Longrightarrow> 0 \<le> r \<Longrightarrow> js_gt (chunk_length (cs ! k)) (Fin r) \<Longrightarrow>
   wfc lo (take k cs @ halves (cs ! k) (Fin r) @ drop (Suc k) cs)"
proof (induction lo cs arbitrary: k rule: wfc.induct)
  case (2 lo t n cs)
  then show ?case by (cases k) (auto simp: js_sub_def)
next
  case (3 lo a b cs)
  then show ?case by (cases k) (auto simp: js_sub_def)
next
  case (4 lo a cs)
  then show ?case by (cases k) (auto simp: js_sub_def)
qed auto

lemma wfc_add_insert:
  "wfc lo (xs @ ys) \<Longrightarrow> ys \<noteq> [] \<Longrightarrow> wfc lo (xs @ InsertChunk t (Fin n) # ys)"
  by (induction lo xs arbitrary: ys rule: wfc.induct) auto

lemma wfc_drop_prefix: "wfc lo (ys @ zs) \<Longrightarrow> zs \<noteq> [] \<Longrightarrow> wfc lo zs"
proof (induction lo ys rule: wfc.induct)
  case (3 lo a b cs)
  then show ?case by (auto intro: wfc_mono)
qed auto

lemma wfc_remove_range:
  "wfc lo (xs @ ys @ zs) \<Longrightarrow> zs \<noteq> [] \<Longrightarrow> wfc lo (xs @ zs)"
proof (induction lo xs rule: wfc.induct)
  case (1 lo)
  then show ?case by (simp add: wfc_drop_prefix)
qed auto

lemma wfc_remove_insert: "wfc lo (xs @ InsertChunk t l # zs) \<Longrightarrow> wfc lo (xs @ zs)"
proof (induction lo xs rule: wfc.induct)
  case (1 lo)
  then show ?case by (cases l) auto
qed auto

lemma wfc_change_insert:
  "wfc lo (xs @ InsertChunk t l # zs) \<Longrightarrow> wfc lo (xs @ InsertChunk t' (Fin n') # zs)"
proof (induction lo xs rule: wfc.induct)
  case (1 lo)
  then show ?case by (cases l) auto
qed auto

lemma splitChunk_chunks:
  "k < length (chunks d) \<Longrightarrow>
   \<exists>d'. splitChunk k splitAt d = Inr d'
      \<and> chunks d' = take k (chunks d) @ halves (chunks d ! k) splitAt @ drop (Suc k) (chunks d)"
  by (cases "chunks d ! k")
     (auto simp: splitChunk_def splice_insert_def take_Suc_conv_app_nth)

lemma findChunk_wfc:
  "wfc lo (chunks d) \<Longrightarrow> 0 \<le> t \<Longrightarrow>
   \<exists>k r. findChunk d (Fin t) = Some (k, Fin r) \<and> k < length (chunks d)
     \<and> 0 \<le> r \<and> js_gt (chunk_length (chunks d ! k)) (Fin r)"
  using findChunk_loop_wfc[of lo "chunks d" 0 t 0] by (simp add: findChunk_def)

lemma split_found_wfc:
  assumes "wfc lo (chunks d)" "0 \<le> t"
  shows "\<exists>k r d'. findChunk d (Fin t) = Some (k, r) \<and> splitChunk k r d = Inr d'
           \<and> wfc lo (chunks d') \<and> Suc k < length (chunks d')"
proof -
  from findChunk_wfc[OF assms] obtain k r where
    f: "findChunk d (Fin t) = Some (k, Fin r)" and k: "k < length (chunks d)"
    and r: "0 \<le> r" "js_gt (chunk_length (chunks d ! k)) (Fin r)" by blast
  from splitChunk_chunks[OF k, of "Fin r"] obtain d' where
    s: "splitChunk k (Fin r) d = Inr d'"
    and c: "chunks d' = take k (chunks d) @ halves (chunks d ! k) (Fin r) @ drop (Suc k) (chunks d)"
    by blast
  have "wfc lo (chunks d')" using wfc_halves[OF assms(1) k r] c by simp
  moreover have "Suc k < length (chunks d')"
    using k c by (cases "chunks d ! k") auto
  ultimately show ?thesis using f s by blast
qed

lemma applyInsert_wfc:
  assumes "wfc lo (chunks d)" "0 \<le> index"
  shows "\<exists>d'. applyInsert index text d = Inr d' \<and> wfc lo (chunks d')"
proof -
  from split_found_wfc[OF assms] obtain k r d1 where
    f: "findChunk d (Fin index) = Some (k, r)" and s: "splitChunk k r d = Inr d1"
    and w: "wfc lo (chunks d1)" and l: "Suc k < length (chunks d1)" by blast
  have "wfc lo (take (Suc k) (chunks d1) @ drop (Suc k) (chunks d1))" using w by simp
  then have "wfc lo (take (Suc k) (chunks d1)
       @ InsertChunk text (Fin (int (length text))) # drop (Suc k) (chunks d1))"
    using l by (auto intro: wfc_add_insert)
  then show ?thesis using f s by (simp add: applyInsert_def splice_insert_def)
qed

lemma wfc_splice_remove:
  assumes "wfc lo cs" "i + n < length cs"
  shows "wfc lo (splice_remove i n cs)"
proof -
  have "take n (drop i cs) @ drop (i + n) cs = drop i cs"
    using append_take_drop_id[of n "drop i cs"] by (simp add: add.commute)
  then have "cs = take i cs @ take n (drop i cs) @ drop (i + n) cs"
    by simp
  then have w: "wfc lo (take i cs @ take n (drop i cs) @ drop (i + n) cs)"
    using assms(1) by simp
  have "drop (i + n) cs \<noteq> []"
    using assms(2) by simp
  with w show ?thesis
    unfolding splice_remove_def by (rule wfc_remove_range)
qed

lemma applyDelete_wfc:
  assumes "wfc lo (chunks d)" "0 \<le> startIndex" "startIndex \<le> endIndex"
  shows "\<exists>d'. applyDelete startIndex endIndex d = Inr d' \<and> wfc lo (chunks d')"
proof (cases "startIndex = endIndex")
  case True
  then show ?thesis using assms(1) by (simp add: applyDelete_def)
next
  case False
  from split_found_wfc[OF assms(1,2)] obtain k r d1 where
    f: "findChunk d (Fin startIndex) = Some (k, r)" and s: "splitChunk k r d = Inr d1"
    and w: "wfc lo (chunks d1)" by blast
  have "0 \<le> endIndex" using assms by simp
  from split_found_wfc[OF w this] obtain m q d2 where
    f2: "findChunk d1 (Fin endIndex) = Some (m, q)" and s2: "splitChunk m q d1 = Inr d2"
    and w2: "wfc lo (chunks d2)" and l2: "Suc m < length (chunks d2)" by blast
  have "wfc lo (splice_remove (k + 1) ((m + 1) - (k + 1)) (chunks d2))"
  proof (cases "k < m")
    case True
    have "k + 1 + (m + 1 - (k + 1)) < length (chunks d2)" using True l2 by simp
    with w2 show ?thesis by (rule wfc_splice_remove)
  next
    case False
    then show ?thesis using w2 by (simp add: splice_remove_def)
  qed
  then show ?thesis using False f s f2 s2 by (simp add: applyDelete_def)
qed

lemma record_edits_wfc:
  "well_formed n es \<Longrightarrow> wfc lo (chunks d) \<Longrightarrow>
   \<exists>d'. record_edits es d = Inr d' \<and> wfc lo (chunks d')"
proof (induction es arbitrary: n d)
  case Nil
  then show ?case by simp
next
  case (Cons e es)
  show ?case
  proof (cases e)
    case (EditInsert index s)
    with Cons.prems have "0 \<le> index" and wf: "well_formed (n + length s) es" by auto
    from applyInsert_wfc[OF Cons.prems(2) this(1)] obtain d1 where
      "applyInsert index s d = Inr d1" "wfc lo (chunks d1)" by blast
    with Cons.IH[OF wf this(2)] EditInsert show ?thesis by auto
  next
    case (EditDelete startIndex endIndex)
    with Cons.prems have b: "0 \<le> startIndex" "startIndex \<le> endIndex"
      and wf: "well_formed (n - nat (endIndex - startIndex)) es" by auto
    from applyDelete_wfc[OF Cons.prems(2) b] obtain d1 where
      "applyDelete startIndex endIndex d = Inr d1" "wfc lo (chunks d1)" by blast
    with Cons.IH[OF wf this(2)] EditDelete show ?thesis by auto
  qed
qed

lemma wfc_SimpleDiffer: "wfc 0 (chunks SimpleDiffer)"
  by (simp add: SimpleDiffer_def)

lemma wfc_last: "wfc lo cs \<Longrightarrow> \<exists>a. last cs = CopyChunk (Fin a) PInf"
  by (induction lo cs rule: wfc.induct) auto

lemma applyDelete_same: "applyDelete i i d = Inr d"
  by (simp add: applyDelete_def)

lemma record_equal_deletes: "record_edits (map (\<lambda>i. EditDelete i i) idxs) d = Inr d"
  by (induction idxs) (simp_all add: applyDelete_same)

lemma js_add_zero: "js_add x (Fin 0) = x"
  by (cases x) auto

lemma js_sub_zero: "js_sub x (Fin 0) = x"
  by (cases x) (auto simp: js_sub_def)

lemma halves_zero: "halves c (Fin 0) = [zero_length c, c]"
  by (cases c) (auto simp: js_add_zero js_sub_zero)

lemma splitChunk_zero:
  assumes "k < length (chunks d)"
  shows "splitChunk k (Fin 0) d
         = Inr (d\<lparr>chunks := take k (chunks d) @ zero_length (chunks d ! k) # drop k (chunks d)\<rparr>)"
proof -
  from splitChunk_chunks[OF assms, of "Fin 0"] obtain d' where
    s: "splitChunk k (Fin 0) d = Inr d'"
    and c: "chunks d' = take k (chunks d) @ halves (chunks d ! k) (Fin 0) @ drop (Suc k) (chunks d)"
    by blast
  have "splitChunk k (Fin 0) d = Inr (d\<lparr>chunks := chunks d'\<rparr>)"
    using s assms by (auto simp: splitChunk_def split: chunk.splits)
  then show ?thesis
    using c assms by (simp add: halves_zero Cons_nth_drop_Suc)
qed

section \<open>The simple diff after well-formed edits\<close>

lemma wfc_nth_insert:
  "wfc lo cs \<Longrightarrow> i < length cs \<Longrightarrow> cs ! i = InsertChunk t l \<Longrightarrow> \<exists>n. l = Fin n"
proof (induction lo cs arbitrary: i rule: wfc.induct)
  case (2 lo t' n cs)
  then show ?case by (cases i) auto
next
  case (3 lo a b cs)
  then show ?case by (cases i) auto
next
  case (4 lo a cs)
  then show ?case by (cases i) auto
qed auto

lemma wfc_remove_at:
  assumes "wfc lo cs" "i < length cs" "cs ! i = InsertChunk t l"
  shows "wfc lo (splice_remove i 1 cs)"
proof -
  have "wfc lo (take i cs @ InsertChunk t l # drop (Suc i) cs)"
    using assms id_take_nth_drop[OF assms(2)] by simp
  then show ?thesis
    unfolding splice_remove_def using wfc_remove_insert by simp
qed

lemma wfc_update_at:
  assumes "wfc lo cs" "p < length cs" "cs ! p = InsertChunk t l"
  shows "wfc lo (cs[p := InsertChunk t' (Fin n)])"
proof -
  have "wfc lo (take p cs @ InsertChunk t l # drop (Suc p) cs)"
    using assms id_take_nth_drop[OF assms(2)] by simp
  then have "wfc lo (take p cs @ InsertChunk t' (Fin n) # drop (Suc p) cs)"
    by (rule wfc_change_insert)
  then show ?thesis
    using upd_conv_take_nth_drop[OF assms(2)] by simp
qed

lemma splice_remove_nth_before: "p < i \<Longrightarrow> i < length cs \<Longrightarrow> splice_remove i n cs ! p = cs ! p"
  by (simp add: splice_remove_def nth_append)

lemma splice_remove_length:
  "i + n \<le> length cs \<Longrightarrow> length (splice_remove i n cs) = length cs - n"
  by (simp add: splice_remove_def)

lemma mergeInserts_loop_wfc:
  "wfc lo cs \<Longrightarrow> prev_ok cs i prevInsert \<Longrightarrow> wfc lo (mergeInserts_loop cs i prevInsert)"
proof (induction cs i prevInsert rule: mergeInserts_loop.induct)
  case (1 cs i prevInsert)
  show ?case
  proof (cases "i < length cs")
    case False
    then show ?thesis using "1.prems" by (subst mergeInserts_loop.simps) simp
  next
    case True
    show ?thesis
    proof (cases "cs ! i")
      case (CopyChunk s l)
      have "wfc lo (mergeInserts_loop cs (i + 1) None)"
        using "1.IH"(1)[OF True CopyChunk] "1.prems" by (simp add: prev_ok_def)
      then show ?thesis using True CopyChunk by (subst mergeInserts_loop.simps) simp
    next
      case (InsertChunk t l)
      show ?thesis
      proof (cases "t = []")
        case empty: True
        have w: "wfc lo (splice_remove i 1 cs)"
          using wfc_remove_at[OF "1.prems"(1) True InsertChunk] .
        have "prev_ok (splice_remove i 1 cs) (i + 1) prevInsert"
          using "1.prems"(2) True
          by (auto simp: prev_ok_def splice_remove_nth_before splice_remove_length
                   split: option.splits)
        from "1.IH"(2)[OF True InsertChunk empty w this]
        show ?thesis using True InsertChunk empty by (subst mergeInserts_loop.simps) simp
      next
        case nonempty: False
        show ?thesis
        proof (cases prevInsert)
          case None
          have "prev_ok cs (i + 1) (Some i)"
            using True InsertChunk by (simp add: prev_ok_def)
          from "1.IH"(3)[OF True InsertChunk nonempty None "1.prems"(1) this]
          show ?thesis using True InsertChunk nonempty None
            by (subst mergeInserts_loop.simps) simp
        next
          case (Some p)
          with "1.prems"(2) obtain pt pl where
            p: "p < i" "p < length cs" "cs ! p = InsertChunk pt pl"
            by (auto simp: prev_ok_def split: chunk.splits)
          from wfc_nth_insert[OF "1.prems"(1) p(2,3)] obtain pn where pn: "pl = Fin pn" by blast
          from wfc_nth_insert[OF "1.prems"(1) True InsertChunk] obtain n where n: "l = Fin n" by blast
          let ?cs = "cs[p := append_text (cs ! p) t l]"
          have a: "append_text (cs ! p) t l = InsertChunk (pt @ t) (Fin (pn + n))"
            using p pn n by simp
          have w1: "wfc lo ?cs"
            unfolding a using wfc_update_at[OF "1.prems"(1) p(2,3)] .
          have i1: "i < length ?cs" using True by simp
          have i2: "?cs ! i = InsertChunk t l" using p(1) InsertChunk by simp
          have w2: "wfc lo (splice_remove i 1 ?cs)"
            using wfc_remove_at[OF w1 i1 i2] .
          have "splice_remove i 1 ?cs ! p = ?cs ! p"
            using p(1) i1 by (rule splice_remove_nth_before)
          then have "prev_ok (splice_remove i 1 ?cs) i (Some p)"
            using p True a by (simp add: prev_ok_def splice_remove_length)
          from "1.IH"(4)[OF True InsertChunk nonempty Some w2] this Some
          show ?thesis using True InsertChunk nonempty
            by (subst mergeInserts_loop.simps) simp
        qed
      qed
    qed
  qed
qed

lemma mergeInserts_wfc: "wfc lo (chunks d) \<Longrightarrow> wfc lo (chunks (mergeInserts d))"
  by (simp add: mergeInserts_def mergeInserts_loop_wfc prev_ok_def)


lemma diff_loop_append:
  "diff_loop (xs @ ys) l out = diff_loop ys (last_copy xs l) (diff_loop xs l out)"
  by (induction xs l out rule: diff_loop.induct) (auto simp: Let_def)

lemma last_copy_append: "last_copy (xs @ ys) l = last_copy ys (last_copy xs l)"
  by (induction xs l rule: last_copy.induct) auto

lemma asc_mono: "asc lb acts \<Longrightarrow> lb' \<le> lb \<Longrightarrow> asc lb' acts"
  by (induction lb acts rule: asc.induct) auto

lemma dsc_mono: "dsc ub acts \<Longrightarrow> ub \<le> ub' \<Longrightarrow> dsc ub' acts"
  by (induction ub acts rule: dsc.induct) auto

lemma diff_loop_wfc:
  "wfc lo cs \<Longrightarrow>
   \<exists>a. last_copy (rev cs) PInf = Fin a \<and> lo \<le> a \<and> asc a (rev (diff_loop (rev cs) PInf []))"
proof (induction lo cs rule: wfc.induct)
  case (2 lo t n cs)
  then obtain a where a: "last_copy (rev cs) PInf = Fin a" "lo \<le> a"
    "asc a (rev (diff_loop (rev cs) PInf []))" by auto
  have "diff_loop (rev (InsertChunk t (Fin n) # cs)) PInf []
        = diff_loop (rev cs) PInf [] @ [InsertAction (Fin a) t]"
    using a(1) by (simp add: diff_loop_append)
  then show ?case using a by (simp add: last_copy_append)
next
  case (3 lo a0 b cs)
  then obtain a where a: "last_copy (rev cs) PInf = Fin a" "a0 + b \<le> a"
    "asc a (rev (diff_loop (rev cs) PInf []))" by auto
  have d: "diff_loop (rev (CopyChunk (Fin a0) (Fin b) # cs)) PInf []
        = diff_loop (rev cs) PInf []
          @ (if a0 + b < a then [DeleteAction (Fin (a0 + b)) (Fin a)] else [])"
    using a(1) by (simp add: diff_loop_append js_sub_def Let_def)
  have "asc a0 (rev (diff_loop (rev (CopyChunk (Fin a0) (Fin b) # cs)) PInf []))"
  proof (cases "a0 + b < a")
    case True
    then show ?thesis using a(3) 3(2) unfolding d by simp
  next
    case False
    have "a0 \<le> a" using a(2) 3(2) by simp
    with a(3) have "asc a0 (rev (diff_loop (rev cs) PInf []))" by (rule asc_mono)
    then show ?thesis using False unfolding d by simp
  qed
  then show ?case using 3(2) by (simp add: last_copy_append)
next
  case (4 lo a cs)
  then show ?case by (simp add: js_sub_def)
qed auto


lemma asc_Delete:
  "asc lb (DeleteAction st en # r) \<Longrightarrow>
   \<exists>s e. st = Fin s \<and> en = Fin e \<and> lb \<le> s \<and> s < e \<and> asc e r"
  by (cases st; cases en) auto

lemma asc_Insert:
  "asc lb (InsertAction st t # r) \<Longrightarrow> \<exists>s. st = Fin s \<and> lb \<le> s \<and> asc s r"
  by (cases st) auto

lemma dsc_Delete:
  "dsc ub (DeleteAction st en # r) \<Longrightarrow>
   \<exists>s e. st = Fin s \<and> en = Fin e \<and> s < e \<and> e \<le> ub \<and> dsc s r"
  by (cases st; cases en) auto

lemma push_delete_False: "push_delete st en acc False = DeleteAction st en # acc"
proof (cases acc)
  case Nil
  then show ?thesis by simp
next
  case (Cons a as)
  then show ?thesis by (cases a) simp_all
qed

lemma mergeDeletes_loop_md:
  "i \<le> length sd \<Longrightarrow> prev = (if b then Some i else None) \<Longrightarrow>
   (b \<longrightarrow> i < length sd \<and> is_delete (sd ! i)) \<Longrightarrow>
   mergeDeletes_loop sd i prev = mergeDeletes_list (rev (take i sd)) (drop i sd) b"
proof (induction sd i prev arbitrary: b rule: mergeDeletes_loop.induct)
  case (1 simpleDiff prevDelete)
  then show ?case by simp
next
  case (2 sd i prev)
  from "2.prems"(1) have i: "i < length sd" by simp
  have tk: "rev (take (Suc i) sd) = sd ! i # rev (take i sd)"
    using i by (simp add: take_Suc_conv_app_nth)
  have dr: "sd ! i # drop (Suc i) sd = drop i sd"
    using i by (rule Cons_nth_drop_Suc)
  show ?case
  proof (cases "sd ! i")
    case (InsertAction st t)
    have "mergeDeletes_loop sd i None = mergeDeletes_list (rev (take i sd)) (drop i sd) False"
      using "2.IH"(5)[OF InsertAction, of False] i by simp
    then show ?thesis using InsertAction tk dr by simp
  next
    case (DeleteAction st en)
    show ?thesis
    proof (cases b)
      case False
      then have p: "prev = None" using "2.prems"(2) by simp
      have "mergeDeletes_list (rev (take (Suc i) sd)) (drop (Suc i) sd) False
            = mergeDeletes_list (rev (take i sd)) (drop i sd) True"
        unfolding tk DeleteAction using dr DeleteAction by (simp add: push_delete_False)
      moreover have "mergeDeletes_loop sd i (Some i) = mergeDeletes_list (rev (take i sd)) (drop i sd) True"
        using "2.IH"(1)[OF DeleteAction p, of True] i DeleteAction by simp
      ultimately show ?thesis using p DeleteAction False by simp
    next
      case True
      with "2.prems" have p: "prev = Some (Suc i)" and l: "Suc i < length sd"
        and dl: "is_delete (sd ! Suc i)" by auto
      from dl obtain pst pen where pd: "sd ! Suc i = DeleteAction pst pen"
        by (cases "sd ! Suc i") auto
      have dr2: "drop (Suc i) sd = DeleteAction pst pen # drop (Suc (Suc i)) sd"
        using Cons_nth_drop_Suc[OF l] pd by simp
      show ?thesis
      proof (cases "js_eq pen st")
        case eq: True
        let ?sd = "splice_remove i 1 (sd[Suc i := DeleteAction pst en])"
        have sd': "?sd = take i sd @ DeleteAction pst en # drop (Suc (Suc i)) sd"
          using l by (simp add: splice_remove_def upd_conv_take_nth_drop drop_Cons'
                                take_Suc_conv_app_nth)
        have t': "take i ?sd = take i sd" and d': "drop i ?sd = DeleteAction pst en # drop (Suc (Suc i)) sd"
          and n': "?sd ! i = DeleteAction pst en" and l': "i < length ?sd"
          using i unfolding sd' by (simp_all add: nth_append)
        have "mergeDeletes_loop ?sd i (Some (Suc i - 1)) = mergeDeletes_list (rev (take i ?sd)) (drop i ?sd) True"
          using "2.IH"(2)[OF DeleteAction p pd eq, of True] l' n' by simp
        then show ?thesis
          using p pd eq DeleteAction True tk dr2 t' d' by simp
      next
        case neq: False
        have "mergeDeletes_loop sd i (Some i) = mergeDeletes_list (rev (take i sd)) (drop i sd) True"
          using "2.IH"(3)[OF DeleteAction p pd neq, of True] i DeleteAction by simp
        moreover have "drop i sd = DeleteAction st en # DeleteAction pst pen # drop (Suc (Suc i)) sd"
          using dr dr2 DeleteAction by simp
        ultimately show ?thesis
          using p pd neq DeleteAction True tk dr2 by simp
      qed
    qed
  qed
qed


lemma push_delete_merged:
  assumes "merged_upto lb acc b" "lb \<le> s" "s < e"
  shows "merged_upto e (push_delete (Fin s) (Fin e) acc b) True"
proof (cases b)
  case False
  then show ?thesis
    using assms dsc_mono[of lb acc s]
    by (auto simp: merged_upto_def push_delete_False successively_Cons adjacent_deletes_def
             split: list.splits)
next
  case True
  with assms(1) obtain a as where acc: "acc = a # as" and del: "is_delete a"
    by (auto simp: merged_upto_def split: list.splits)
  from del obtain pst pen where a: "a = DeleteAction pst pen" by (cases a) auto
  from assms(1) have "dsc lb (DeleteAction pst pen # as)" by (simp add: merged_upto_def acc a)
  from dsc_Delete[OF this] obtain ps pe where
    p: "pst = Fin ps" "pen = Fin pe" "ps < pe" "pe \<le> lb" "dsc ps as" by blast
  have suc: "successively (\<lambda>x y. \<not> adjacent_deletes y x) (DeleteAction (Fin ps) (Fin pe) # as)"
    using assms(1) by (simp add: merged_upto_def acc a p)
  show ?thesis
  proof (cases "pe = s")
    case eq: True
    have "successively (\<lambda>x y. \<not> adjacent_deletes y x) (DeleteAction (Fin ps) (Fin e) # as)"
      using suc by (auto simp: successively_Cons adjacent_deletes_def)
    then show ?thesis
      using True acc a p eq assms by (simp add: merged_upto_def)
  next
    case neq: False
    have "dsc s (DeleteAction (Fin ps) (Fin pe) # as)"
      using p assms by simp
    then show ?thesis
      using True acc a p neq assms suc
      by (simp add: merged_upto_def adjacent_deletes_def)
  qed
qed

lemma push_insert_merged:
  assumes "merged_upto lb acc b" "lb \<le> s"
  shows "merged_upto s (InsertAction (Fin s) t # acc) False"
  using assms dsc_mono[of lb acc s]
  by (auto simp: merged_upto_def successively_Cons adjacent_deletes_def)

lemma md_merged:
  "asc lb r \<Longrightarrow> merged_upto lb acc b \<Longrightarrow> \<exists>ub b'. merged_upto ub (mergeDeletes_list r acc b) b'"
proof (induction r acc b arbitrary: lb rule: mergeDeletes_list.induct)
  case (1 acc b)
  then show ?case by auto
next
  case (2 st t r acc b)
  from asc_Insert[OF "2.prems"(1)] obtain s where s: "st = Fin s" "lb \<le> s" "asc s r" by blast
  from push_insert_merged[OF "2.prems"(2) s(2)]
  have "merged_upto s (InsertAction st t # acc) False" by (simp add: s(1))
  from "2.IH"[OF s(3) this] show ?case by simp
next
  case (3 st en r acc b)
  from asc_Delete[OF "3.prems"(1)] obtain s e where
    s: "st = Fin s" "en = Fin e" "lb \<le> s" "s < e" "asc e r" by blast
  from push_delete_merged[OF "3.prems"(2) s(3,4)]
  have "merged_upto e (push_delete st en acc b) True" by (simp add: s)
  from "3.IH"[OF s(5) this] show ?case by simp
qed


lemma js_le_Fin: "js_le (Fin a) (Fin b) = (a \<le> b)"
  by (auto simp: js_le_def)

lemma dsc_bound:
  "dsc ub acts \<Longrightarrow> a \<in> set acts \<Longrightarrow>
   finite_action a \<and> js_le (action_start a) (action_end a) \<and> js_le (action_end a) (Fin ub)"
proof (induction ub acts rule: dsc.induct)
  case (2 ub s e acts)
  then show ?case
  proof (cases "a = DeleteAction (Fin s) (Fin e)")
    case True
    with 2 show ?thesis by (simp add: js_le_Fin)
  next
    case False
    with 2 have "finite_action a" "js_le (action_start a) (action_end a)"
      "js_le (action_end a) (Fin s)" by auto
    moreover have "s \<le> ub" using 2 by simp
    ultimately show ?thesis by (cases a rule: finite_action.cases) (auto simp: js_le_Fin)
  qed
next
  case (3 ub s t acts)
  then show ?case
  proof (cases "a = InsertAction (Fin s) t")
    case True
    with 3 show ?thesis by (simp add: js_le_Fin)
  next
    case False
    with 3 have "finite_action a" "js_le (action_start a) (action_end a)"
      "js_le (action_end a) (Fin s)" by auto
    moreover have "s \<le> ub" using 3 by simp
    ultimately show ?thesis by (cases a rule: finite_action.cases) (auto simp: js_le_Fin)
  qed
qed auto

lemma dsc_finite: "dsc ub acts \<Longrightarrow> list_all finite_action acts"
  using dsc_bound by (auto simp: list_all_iff)

lemma dsc_no_overlap: "dsc ub acts \<Longrightarrow> no_overlap acts"
proof (induction ub acts rule: dsc.induct)
  case (2 ub s e acts)
  then have "\<forall>b \<in> set acts. js_le (action_end b) (Fin s)" using dsc_bound by auto
  with 2 show ?case by (auto simp: no_overlap_def disjoint_spans_def)
next
  case (3 ub s t acts)
  then have "\<forall>b \<in> set acts. js_le (action_end b) (Fin s)" using dsc_bound by auto
  with 3 show ?case by (auto simp: no_overlap_def disjoint_spans_def)
qed (auto simp: no_overlap_def)

lemma dsc_forward: "dsc ub acts \<Longrightarrow> successively (\<lambda>a b. \<not> adjacent_deletes a b) acts"
proof (induction ub acts rule: dsc.induct)
  case (2 ub s e acts)
  show ?case
  proof (cases acts)
    case Nil
    then show ?thesis by simp
  next
    case (Cons b bs)
    have "finite_action b \<and> js_le (action_start b) (action_end b) \<and> js_le (action_end b) (Fin s)"
      using 2(2) Cons dsc_bound[of s acts b] by simp
    then have "\<not> adjacent_deletes (DeleteAction (Fin s) (Fin e)) b"
      using 2(2) by (cases b rule: finite_action.cases) (auto simp: adjacent_deletes_def js_le_Fin)
    with 2 Cons show ?thesis by simp
  qed
next
  case (3 ub s t acts)
  then show ?case by (auto simp: successively_Cons adjacent_deletes_def)
qed auto

lemma successively_conj:
  "successively P xs \<Longrightarrow> successively Q xs \<Longrightarrow> successively (\<lambda>a b. P a b \<and> Q a b) xs"
  by (induction P xs rule: successively.induct) auto

lemma dsc_sorted:
  "dsc ub acts \<Longrightarrow> sorted_wrt (\<lambda>a b. js_le (action_end b) (action_start a)) acts"
proof (induction ub acts rule: dsc.induct)
  case (2 ub s e acts)
  then have "\<forall>b \<in> set acts. js_le (action_end b) (Fin s)" using dsc_bound by auto
  with 2 show ?case by auto
next
  case (3 ub s t acts)
  then have "\<forall>b \<in> set acts. js_le (action_end b) (Fin s)" using dsc_bound by auto
  with 3 show ?case by auto
qed auto

lemma finite_action_span:
  "finite_action a \<Longrightarrow>
   \<exists>s e. action_start a = Fin s \<and> action_end a = Fin e \<and> s \<le> e \<and> (is_delete a \<longrightarrow> s < e)"
  by (cases a rule: finite_action.cases) auto

lemma dsc_insert_between:
  assumes d: "dsc ub acts"
    and n: "successively (\<lambda>x y. \<not> adjacent_deletes y x) acts"
  shows "insert_between acts"
  unfolding insert_between_def
proof (intro ballI impI)
  fix j i
  assume j: "j \<in> {..<length acts}" and i: "i \<in> {..<j}"
    and adj: "adjacent_deletes (acts ! i) (acts ! j) \<or> adjacent_deletes (acts ! j) (acts ! i)"
  have lt: "i < j" "j < length acts" using i j by auto
  have fin: "finite_action (acts ! m)" if "m < length acts" for m
    using dsc_bound[OF d, of "acts ! m"] that by simp
  have srt: "js_le (action_end (acts ! q)) (action_start (acts ! p))"
    if "p < q" "q < length acts" for p q
    using sorted_wrt_nth_less[OF dsc_sorted[OF d] that] .
  from finite_action_span[OF fin[of i]] lt obtain si ei where
    ai: "action_start (acts ! i) = Fin si" "action_end (acts ! i) = Fin ei" "si \<le> ei"
        "is_delete (acts ! i) \<longrightarrow> si < ei" by auto
  from finite_action_span[OF fin[of j]] lt obtain sj ej where
    aj: "action_start (acts ! j) = Fin sj" "action_end (acts ! j) = Fin ej" "sj \<le> ej"
        "is_delete (acts ! j) \<longrightarrow> sj < ej" by auto
  have ord: "ej \<le> si" using srt[OF lt] ai aj by (simp add: js_le_Fin)
  have dels: "is_delete (acts ! i)" "is_delete (acts ! j)"
    using adj by (auto simp: adjacent_deletes_def)
  have "\<not> adjacent_deletes (acts ! i) (acts ! j)"
    using ai aj ord dels by (auto simp: adjacent_deletes_def)
  with adj have "adjacent_deletes (acts ! j) (acts ! i)" by simp
  then have eq: "ej = si" using ai aj by (simp add: adjacent_deletes_def)
  have "Suc i \<noteq> j"
  proof
    assume "Suc i = j"
    with successively_nth[OF n, of i] lt have "\<not> adjacent_deletes (acts ! j) (acts ! i)" by simp
    with \<open>adjacent_deletes (acts ! j) (acts ! i)\<close> show False by simp
  qed
  with lt have k: "i < Suc i" "Suc i < j" "Suc i < length acts" by auto
  from finite_action_span[OF fin[OF k(3)]] obtain sk ek where
    ak: "action_start (acts ! Suc i) = Fin sk" "action_end (acts ! Suc i) = Fin ek" "sk \<le> ek"
        "is_delete (acts ! Suc i) \<longrightarrow> sk < ek" by auto
  have "ek \<le> si" using srt[OF k(1,3)] ai ak by (simp add: js_le_Fin)
  moreover have "ej \<le> sk" using srt[OF k(2) lt(2)] aj ak by (simp add: js_le_Fin)
  ultimately have "\<not> is_delete (acts ! Suc i)" using eq ak(4) by auto
  then show "\<exists>k \<in> {i<..<j}. \<not> is_delete (acts ! k)" using k by auto
qed

lemma getSimpleDiff_wfc:
  assumes "wfc lo (chunks d)"
  shows "list_all finite_action (snd (getSimpleDiff d))
         \<and> no_overlap (snd (getSimpleDiff d)) \<and> neighbours_apart (snd (getSimpleDiff d))
         \<and> insert_between (snd (getSimpleDiff d))"
proof -
  let ?sd = "diff_loop (rev (chunks (mergeInserts d))) PInf []"
  have r: "snd (getSimpleDiff d) = mergeDeletes_list (rev ?sd) [] False"
    using mergeDeletes_loop_md[of "length ?sd" ?sd None False]
    by (simp add: getSimpleDiff_def Let_def)
  from diff_loop_wfc[OF mergeInserts_wfc[OF assms]] obtain a where
    "asc a (rev ?sd)" by blast
  moreover have "merged_upto a [] False" by (simp add: merged_upto_def)
  ultimately obtain ub b where "merged_upto ub (mergeDeletes_list (rev ?sd) [] False) b"
    using md_merged by blast
  then have d: "dsc ub (snd (getSimpleDiff d))"
    and s: "successively (\<lambda>x y. \<not> adjacent_deletes y x) (snd (getSimpleDiff d))"
    unfolding r by (simp_all add: merged_upto_def)
  have "neighbours_apart (snd (getSimpleDiff d))"
    unfolding neighbours_apart_def using successively_conj[OF s dsc_forward[OF d]] .
  with d dsc_insert_between[OF d s] show ?thesis by (simp add: dsc_finite dsc_no_overlap)
qed


section \<open>The claims\<close>

text \<open>
  C1 (round trip), as the code has it: the four edits below are well formed for the
  base \<open>abcdef\<close> and turn it into \<open>XbYcdef\<close>, but replaying the simple diff that
  \<^verbatim>\<open>getSimpleDiff\<close> returns for them gives \<open>XYbcdef\<close>. After the last edit the chunks are
  copy(0,0), insert X, insert of the empty text, copy(1,1), insert Y, copy(2,Infinity);
  \<^verbatim>\<open>mergeInserts_\<close> removes the empty insert without \<^verbatim>\<open>i--\<close>, steps over copy(1,1)
  with \<open>prevInsert\<close> still set, and appends Y to X across the copied character.
\<close>

theorem round_trip_broken_by_mergeInserts:
  "well_formed (length ''abcdef'')
     [EditInsert 0 ''XW'', EditInsert 1 ''Z'', EditDelete 1 4, EditInsert 2 ''Y'']
   \<and> record_edits [EditInsert 0 ''XW'', EditInsert 1 ''Z'', EditDelete 1 4, EditInsert 2 ''Y'']
        SimpleDiffer
       = Inr \<lparr>chunks = [CopyChunk (Fin 0) (Fin 0), InsertChunk ''X'' (Fin 1),
                        InsertChunk [] (Fin 0), CopyChunk (Fin 1) (Fin 1),
                        InsertChunk ''Y'' (Fin 1), CopyChunk (Fin 2) PInf]\<rparr>
   \<and> simple_diff_of [EditInsert 0 ''XW'', EditInsert 1 ''Z'', EditDelete 1 4, EditInsert 2 ''Y'']
       = Inr [InsertAction (Fin 1) ''XY'', DeleteAction (Fin 0) (Fin 1)]
   \<and> replay [InsertAction (Fin 1) ''XY'', DeleteAction (Fin 0) (Fin 1)] ''abcdef'' = ''XYbcdef''
   \<and> edit_all [EditInsert 0 ''XW'', EditInsert 1 ''Z'', EditDelete 1 4, EditInsert 2 ''Y'']
        ''abcdef'' = ''XbYcdef''"
  by code_simp

text \<open>
  C2 (no overlap), as stated, fails on its second half: after delete(2,3), insert(2, X),
  delete(3,4) the diff holds the deletes \<open>[3,4)\<close> and \<open>[2,3)\<close> with the insert at 3
  between them; the merging loop resets \<open>prevDelete\<close> at the insert, so the two
  deletes stay apart although the first ends where the second starts.
\<close>

theorem adjacent_deletes_around_insert:
  "well_formed 6 [EditDelete 2 3, EditInsert 2 ''X'', EditDelete 3 4]
   \<and> simple_diff_of [EditDelete 2 3, EditInsert 2 ''X'', EditDelete 3 4]
       = Inr [DeleteAction (Fin 3) (Fin 4), InsertAction (Fin 3) ''X'',
              DeleteAction (Fin 2) (Fin 3)]
   \<and> adjacent_deletes (DeleteAction (Fin 2) (Fin 3)) (DeleteAction (Fin 3) (Fin 4))
   \<and> \<not> deletes_apart [DeleteAction (Fin 3) (Fin 4), InsertAction (Fin 3) ''X'',
                        DeleteAction (Fin 2) (Fin 3)]"
  by code_simp

text \<open>
  C2, amended: after well-formed edits, the spans of the actions of the simple diff do
  not overlap, for every pair of actions (the span of an insert is the point of its
  start); two deletes that follow one another in the list are never adjacent; and two
  deletes of which one ends where the other starts have an insert between them in the
  list, at which the merging loop had reset \<open>prevDelete\<close>.
\<close>

theorem diff_spans_disjoint:
  assumes "well_formed n es"
  shows "\<exists>acts. simple_diff_of es = Inr acts
           \<and> no_overlap acts \<and> neighbours_apart acts \<and> insert_between acts"
proof -
  from record_edits_wfc[OF assms wfc_SimpleDiffer] obtain d where
    d: "record_edits es SimpleDiffer = Inr d" and w: "wfc 0 (chunks d)" by blast
  from getSimpleDiff_wfc[OF w] d show ?thesis by (simp add: simple_diff_of_def)
qed

theorem diff_spans_disjoint_witness:
  "well_formed 6 [EditDelete 2 3, EditInsert 2 ''X'', EditDelete 3 4]
   \<and> (\<exists>acts. simple_diff_of [EditDelete 2 3, EditInsert 2 ''X'', EditDelete 3 4] = Inr acts
         \<and> no_overlap acts \<and> neighbours_apart acts \<and> insert_between acts)"
proof -
  have h: "well_formed 6 [EditDelete 2 3, EditInsert 2 ''X'', EditDelete 3 4]" by simp
  from h diff_spans_disjoint[OF h] show ?thesis by blast
qed

text \<open>
  C3 (a split at a chunk boundary is a no-op), as stated, fails: on a fresh differ
  \<^verbatim>\<open>findChunk_(0)\<close> asks for a split of chunk 0 at offset 0, and \<^verbatim>\<open>splitChunk_\<close> makes
  a copy chunk of length 0, which \<^verbatim>\<open>applyInsert\<close> leaves in the sequence.
\<close>

theorem split_at_boundary_adds_chunk:
  "findChunk SimpleDiffer (Fin 0) = Some (0, Fin 0)
   \<and> splitChunk 0 (Fin 0) SimpleDiffer
       = Inr \<lparr>chunks = [CopyChunk (Fin 0) (Fin 0), CopyChunk (Fin 0) PInf]\<rparr>
   \<and> applyInsert 0 ''X'' SimpleDiffer
       = Inr \<lparr>chunks = [CopyChunk (Fin 0) (Fin 0), InsertChunk ''X'' (Fin 1),
                        CopyChunk (Fin 0) PInf]\<rparr>"
  by code_simp

text \<open>
  C3, amended: after well-formed edits, the remainder that \<^verbatim>\<open>findChunk_\<close> returns for
  an offset \<open>t \<ge> 0\<close> is at least 0 and smaller than the length of the chunk found, so
  a split is never asked for at the end of a chunk; and a split of that chunk at
  offset 0 is carried out: it puts a chunk of length 0 of the same type in front of
  the chunk and leaves every other chunk as it is.
\<close>

theorem split_at_chunk_start:
  assumes "well_formed n es" and "0 \<le> t"
  shows "\<exists>d k r. record_edits es SimpleDiffer = Inr d
           \<and> findChunk d (Fin t) = Some (k, Fin r)
           \<and> 0 \<le> r \<and> js_gt (chunk_length (chunks d ! k)) (Fin r)
           \<and> splitChunk k (Fin 0) d
               = Inr (d\<lparr>chunks := take k (chunks d) @ zero_length (chunks d ! k)
                                      # drop k (chunks d)\<rparr>)"
proof -
  from record_edits_wfc[OF assms(1) wfc_SimpleDiffer] obtain d where
    d: "record_edits es SimpleDiffer = Inr d" and w: "wfc 0 (chunks d)" by blast
  from findChunk_wfc[OF w assms(2)] obtain k r where
    f: "findChunk d (Fin t) = Some (k, Fin r)" and k: "k < length (chunks d)"
    and r: "0 \<le> r" "js_gt (chunk_length (chunks d ! k)) (Fin r)" by blast
  from d f r splitChunk_zero[OF k] show ?thesis by blast
qed

theorem split_at_chunk_start_witness:
  "well_formed 6 [EditInsert 3 ''XY''] \<and> (0::int) \<le> 3
   \<and> (\<exists>d k r. record_edits [EditInsert 3 ''XY''] SimpleDiffer = Inr d
           \<and> findChunk d (Fin 3) = Some (k, Fin r)
           \<and> 0 \<le> r \<and> js_gt (chunk_length (chunks d ! k)) (Fin r)
           \<and> splitChunk k (Fin 0) d
               = Inr (d\<lparr>chunks := take k (chunks d) @ zero_length (chunks d ! k)
                                      # drop k (chunks d)\<rparr>))"
proof -
  have h1: "well_formed 6 [EditInsert 3 ''XY'']" by simp
  have h2: "(0::int) \<le> 3" by simp
  from h1 h2 split_at_chunk_start[OF h1 h2] show ?thesis by blast
qed

text \<open>
  C4 (delete-merge scenario): on a fresh differ, \<^verbatim>\<open>applyDelete(2, 3)\<close> and then
  \<^verbatim>\<open>applyDelete(2, 4)\<close> make \<^verbatim>\<open>getSimpleDiff\<close> return the one action delete \<open>[2, 5)\<close>.
\<close>

theorem delete_merge_scenario:
  "simple_diff_of [EditDelete 2 3, EditDelete 2 4] = Inr [DeleteAction (Fin 2) (Fin 5)]"
  by code_simp

text \<open>
  C5 (concrete scenario), as stated, fails on the resulting string: the diff is the one
  the claim gives, but replaying it on \<open>abcdef\<close> does not give \<open>bcdXYef\<close>.
\<close>

theorem concrete_scenario_other_string:
  "simple_diff_of [EditInsert 3 ''XY'', EditDelete 0 1]
     = Inr [InsertAction (Fin 3) ''XY'', DeleteAction (Fin 0) (Fin 1)]
   \<and> replay [InsertAction (Fin 3) ''XY'', DeleteAction (Fin 0) (Fin 1)] ''abcdef''
       \<noteq> ''bcdXYef''"
  by code_simp

text \<open>
  C5, amended: after \<^verbatim>\<open>applyInsert(3, "XY")\<close> and \<^verbatim>\<open>applyDelete(0, 1)\<close> on a fresh
  differ, \<^verbatim>\<open>getSimpleDiff\<close> returns the insert of \<open>XY\<close> at 3 and then the delete
  \<open>[0, 1)\<close>; replaying them in this order on \<open>abcdef\<close> gives \<open>bcXYdef\<close>, which is also
  what the two edits make of \<open>abcdef\<close>.
\<close>

theorem concrete_scenario:
  "simple_diff_of [EditInsert 3 ''XY'', EditDelete 0 1]
     = Inr [InsertAction (Fin 3) ''XY'', DeleteAction (Fin 0) (Fin 1)]
   \<and> replay [InsertAction (Fin 3) ''XY'', DeleteAction (Fin 0) (Fin 1)] ''abcdef''
       = ''bcXYdef''
   \<and> edit_all [EditInsert 3 ''XY'', EditDelete 0 1] ''abcdef'' = ''bcXYdef''"
  by code_simp

text \<open>
  C6 (no insert with empty text in the diff), as the code has it: an insert of \<open>a\<close> at 0
  and then an insert of the empty text at 0 leave two empty insert chunks side by side
  (the left half of the split of \<open>a\<close> at 0, and the new chunk); \<^verbatim>\<open>mergeInserts_\<close>
  removes the first and, without \<^verbatim>\<open>i--\<close>, steps over the second, which comes out as
  an insert action with empty text. Three inserts of non-empty texts at 0 do the same
  with the two left halves of their splits.
\<close>

theorem empty_insert_in_diff:
  "well_formed 0 [EditInsert 0 ''a'', EditInsert 0 []]
   \<and> record_edits [EditInsert 0 ''a'', EditInsert 0 []] SimpleDiffer
       = Inr \<lparr>chunks = [CopyChunk (Fin 0) (Fin 0), InsertChunk [] (Fin 0),
                        InsertChunk [] (Fin 0), InsertChunk ''a'' (Fin 1),
                        CopyChunk (Fin 0) PInf]\<rparr>
   \<and> simple_diff_of [EditInsert 0 ''a'', EditInsert 0 []]
       = Inr [InsertAction (Fin 0) ''a'', InsertAction (Fin 0) []]
   \<and> simple_diff_of [EditInsert 0 ''a'', EditInsert 0 ''b'', EditInsert 0 ''c'']
       = Inr [InsertAction (Fin 0) ''cba'', InsertAction (Fin 0) []]"
  by code_simp

text \<open>
  C7 (a delete with equal bounds is a no-op): for every state of the differ and every
  index \<open>i\<close>, \<^verbatim>\<open>applyDelete(i, i)\<close> returns with the state unchanged.
\<close>

theorem applyDelete_equal_bounds: "applyDelete i i d = Inr d"
  by (simp add: applyDelete_def)

text \<open>
  C8 (locate returns a result): after any well-formed sequence of edits on a fresh
  differ, the sequence ends in a copy chunk of length \<^verbatim>\<open>Infinity\<close>, and \<^verbatim>\<open>findChunk_\<close>
  returns, for every offset \<open>t \<ge> 0\<close>, the index of a chunk of the sequence and a finite
  remainder that is not negative. (The loop of \<^verbatim>\<open>findChunk_\<close> runs over a finite array,
  so the model is a total function; \<open>None\<close> is the return of undefined.)
\<close>

theorem findChunk_returns:
  assumes "well_formed n es" and "0 \<le> t"
  shows "\<exists>d k r a. record_edits es SimpleDiffer = Inr d
           \<and> last (chunks d) = CopyChunk (Fin a) PInf
           \<and> findChunk d (Fin t) = Some (k, Fin r) \<and> k < length (chunks d) \<and> 0 \<le> r"
proof -
  from record_edits_wfc[OF assms(1) wfc_SimpleDiffer] obtain d where
    d: "record_edits es SimpleDiffer = Inr d" and w: "wfc 0 (chunks d)" by blast
  from wfc_last[OF w] obtain a where a: "last (chunks d) = CopyChunk (Fin a) PInf" by blast
  from findChunk_wfc[OF w assms(2)] obtain k r where
    "findChunk d (Fin t) = Some (k, Fin r)" "k < length (chunks d)" "0 \<le> r" by blast
  with d a show ?thesis by blast
qed

theorem findChunk_returns_witness:
  "well_formed 6 [EditInsert 3 ''XY'', EditDelete 0 1] \<and> (0::int) \<le> 4
   \<and> (\<exists>d k r a. record_edits [EditInsert 3 ''XY'', EditDelete 0 1] SimpleDiffer = Inr d
           \<and> last (chunks d) = CopyChunk (Fin a) PInf
           \<and> findChunk d (Fin 4) = Some (k, Fin r) \<and> k < length (chunks d) \<and> 0 \<le> r)"
proof -
  have h1: "well_formed 6 [EditInsert 3 ''XY'', EditDelete 0 1]" by simp
  have h2: "(0::int) \<le> 4" by simp
  from h1 h2 findChunk_returns[OF h1 h2] show ?thesis by blast
qed

text \<open>
  C9 (the unbounded length stays inside): after well-formed edits, every action that
  \<^verbatim>\<open>getSimpleDiff\<close> returns has finite offsets: a delete has a finite start and a
  finite end with start \<open><\<close> end, an insert has a finite start. (In the model the gap
  of the trailing chunk is \<open>PInf\<close> minus \<open>PInf\<close>, which is \<open>NaN\<close>, and \<open>NaN > 0\<close> is
  false.)
\<close>

theorem diff_actions_finite:
  assumes "well_formed n es"
  shows "\<exists>acts. simple_diff_of es = Inr acts \<and> list_all finite_action acts"
proof -
  from record_edits_wfc[OF assms wfc_SimpleDiffer] obtain d where
    d: "record_edits es SimpleDiffer = Inr d" and w: "wfc 0 (chunks d)" by blast
  from getSimpleDiff_wfc[OF w] d show ?thesis by (simp add: simple_diff_of_def)
qed

theorem diff_actions_finite_witness:
  "well_formed 6 [EditDelete 2 3, EditDelete 2 4, EditInsert 1 ''X'']
   \<and> (\<exists>acts. simple_diff_of [EditDelete 2 3, EditDelete 2 4, EditInsert 1 ''X''] = Inr acts
         \<and> list_all finite_action acts)"
proof -
  have h: "well_formed 6 [EditDelete 2 3, EditDelete 2 4, EditInsert 1 ''X'']" by simp
  from h diff_actions_finite[OF h] show ?thesis by blast
qed

text \<open>
  C10 (empty diff of an untouched differ): \<^verbatim>\<open>getSimpleDiff\<close> on a fresh differ returns
  no action, and so it does after any number of \<^verbatim>\<open>applyDelete\<close> calls with equal
  start and end indices.
\<close>

theorem untouched_differ_empty_diff:
  "snd (getSimpleDiff SimpleDiffer) = []
   \<and> simple_diff_of (map (\<lambda>i. EditDelete i i) idxs) = Inr []"
proof -
  have "snd (getSimpleDiff SimpleDiffer) = []" by code_simp
  then show ?thesis by (simp add: simple_diff_of_def record_equal_deletes)
qed

end
